theory Spec2Isabelle
  imports Main "HOL-Library.Word"
begin

unbundle bit_operations_syntax

section \<open>humanhash: human-readable representations of digests\<close>

text \<open>
  A shallow embedding of \<^verbatim>\<open>src/index.js\<close> (class \<^verbatim>\<open>HumanHasher\<close>).

  Conventions of the embedding.
  \<^item> A JavaScript array is a HOL list. Array lengths stay below \<open>2 ^ 31\<close>, where the
    source's \<^verbatim>\<open>>>0\<close> is plain truncation of a non-negative quotient.
  \<^item> A JavaScript string is a \<^typ>\<open>string\<close>; one \<^typ>\<open>char\<close> is one code unit in the
    range 0..255.
  \<^item> The numbers that flow through the class are the results of
    \<^verbatim>\<open>parseInt(x, 16)\<close> and of \<^verbatim>\<open>^\<close>: an integer or NaN. Minus zero is
    identified with zero (both index the same array slot and both are 0 under
    \<^verbatim>\<open>^\<close>).
  \<^item> The parameters \<^verbatim>\<open>words\<close> and \<^verbatim>\<open>target\<close> are counts: natural numbers,
    zero included.
  \<^item> A word list is an array of strings.
  \<^item> A \<^verbatim>\<open>throw\<close> is a result \<open>Inl e\<close>; a normal return is \<open>Inr v\<close>.
  \<^item> The method \<^verbatim>\<open>uuid\<close> only feeds the output of an external generator to
    \<^verbatim>\<open>humanize\<close> and is not embedded.
\<close>

subsection \<open>Values and errors\<close>

datatype number = NaN | Num int

text \<open>
  \<open>Error msg\<close> is \<^verbatim>\<open>new Error(msg)\<close>, thrown by the class itself. \<open>TypeError\<close> is the
  error the runtime throws on a property access on \<^verbatim>\<open>null\<close> or \<^verbatim>\<open>undefined\<close>
  and on \<^verbatim>\<open>reduce\<close> of an empty array without initial value.
\<close>

datatype error = Error string | TypeError

abbreviation InvalidConfiguration :: error where
  "InvalidConfiguration \<equiv> Error ''Wordlist must have exactly 256 items''"

abbreviation InsufficientInput :: error where
  "InsufficientInput \<equiv> Error ''Fewer input bytes than requested output''"

subsection \<open>The default word list\<close>

definition DEFAULT_WORDLIST :: "string list" where
  "DEFAULT_WORDLIST = [
  ''ack'', ''alabama'', ''alanine'', ''alaska'', ''alpha'', ''angel'',
     ''apart'', ''april'', ''arizona'', ''arkansas'', ''artist'',
     ''asparagus'', ''aspen'', ''august'', ''autumn'', ''avocado'', ''bacon'',
     ''bakerloo'', ''batman'', ''beer'', ''berlin'', ''beryllium'', ''black'',
     ''blossom'', ''blue'', ''bluebird'', ''bravo'', ''bulldog'', ''burger'',
     ''butter'', ''california'', ''carbon'', ''cardinal'', ''carolina'',
     ''carpet'', ''cat'', ''ceiling'', ''charlie'', ''chicken'', ''coffee'',
     ''cola'', ''cold'', ''colorado'', ''comet'', ''connecticut'', ''crazy'',
     ''cup'', ''dakota'', ''december'', ''delaware'', ''delta'', ''diet'',
     ''don'', ''double'', ''early'', ''earth'', ''east'', ''echo'',
     ''edward'', ''eight'', ''eighteen'', ''eleven'', ''emma'', ''enemy'',
     ''equal'', ''failed'', ''fanta'', ''fifteen'', ''fillet'', ''finch'',
     ''fish'', ''five'', ''fix'', ''floor'', ''florida'', ''football'',
     ''four'', ''fourteen'', ''foxtrot'', ''freddie'', ''friend'', ''fruit'',
     ''gee'', ''georgia'', ''glucose'', ''golf'', ''green'', ''grey'',
     ''hamper'', ''happy'', ''harry'', ''hawaii'', ''helium'', ''high'',
     ''hot'', ''hotel'', ''hydrogen'', ''idaho'', ''illinois'', ''india'',
     ''indigo'', ''ink'', ''iowa'', ''island'', ''item'', ''jersey'', ''jig'',
     ''johnny'', ''juliet'', ''july'', ''jupiter'', ''kansas'', ''kentucky'',
     ''kilo'', ''king'', ''kitten'', ''lactose'', ''lake'', ''lamp'',
     ''lemon'', ''leopard'', ''lima'', ''lion'', ''lithium'', ''london'',
     ''louisiana'', ''low'', ''magazine'', ''magnesium'', ''maine'',
     ''mango'', ''march'', ''mars'', ''maryland'', ''massachusetts'', ''may'',
     ''mexico'', ''michigan'', ''mike'', ''minnesota'', ''mirror'',
     ''mississippi'', ''missouri'', ''mobile'', ''mockingbird'', ''monkey'',
     ''montana'', ''moon'', ''mountain'', ''muppet'', ''music'', ''nebraska'',
     ''neptune'', ''network'', ''nevada'', ''nine'', ''nineteen'',
     ''nitrogen'', ''north'', ''november'', ''nuts'', ''october'', ''ohio'',
     ''oklahoma'', ''one'', ''orange'', ''oranges'', ''oregon'', ''oscar'',
     ''oven'', ''oxygen'', ''papa'', ''paris'', ''pasta'', ''pennsylvania'',
     ''pip'', ''pizza'', ''pluto'', ''potato'', ''princess'', ''purple'',
     ''quebec'', ''queen'', ''quiet'', ''red'', ''river'', ''robert'',
     ''robin'', ''romeo'', ''rugby'', ''sad'', ''salami'', ''saturn'',
     ''september'', ''seven'', ''seventeen'', ''shade'', ''sierra'',
     ''single'', ''sink'', ''six'', ''sixteen'', ''skylark'', ''snake'',
     ''social'', ''sodium'', ''solar'', ''south'', ''spaghetti'', ''speaker'',
     ''spring'', ''stairway'', ''steak'', ''stream'', ''summer'', ''sweet'',
     ''table'', ''tango'', ''ten'', ''tennessee'', ''tennis'', ''texas'',
     ''thirteen'', ''three'', ''timing'', ''triple'', ''twelve'', ''twenty'',
     ''two'', ''uncle'', ''undress'', ''uniform'', ''uranus'', ''utah'',
     ''vegan'', ''venus'', ''vermont'', ''victor'', ''video'', ''violet'',
     ''virginia'', ''washington'', ''west'', ''whiskey'', ''white'',
     ''william'', ''winner'', ''winter'', ''wisconsin'', ''wolfram'',
     ''wyoming'', ''xray'', ''yankee'', ''yellow'', ''zebra'', ''zulu'']"

subsection \<open>The constructor\<close>

record HumanHasher =
  wordlist :: "string list"

text \<open>
  \<^verbatim>\<open>constructor(wordlist = DEFAULT_WORDLIST)\<close>, called with an explicit word list.
\<close>

definition constructor :: "string list \<Rightarrow> error + HumanHasher" where
  "constructor wl =
     (if length wl \<noteq> 256 then Inl (Error ''Wordlist must have exactly 256 items'')
      else Inr \<lparr>wordlist = wl\<rparr>)"

text \<open>\<^verbatim>\<open>new HumanHasher()\<close>: the parameter takes its default value.\<close>

definition constructor_default :: "error + HumanHasher" where
  "constructor_default = constructor DEFAULT_WORDLIST"

subsection \<open>Compression\<close>

text \<open>
  \<^verbatim>\<open>a ^ b\<close>: both operands go through ToInt32 (NaN becomes 0, an integer is
  reduced modulo \<open>2 ^ 32\<close>), the result is read as a signed 32-bit integer.
\<close>

definition ToInt32 :: "number \<Rightarrow> 32 word" where
  "ToInt32 x = (case x of NaN \<Rightarrow> 0 | Num v \<Rightarrow> word_of_int v)"

definition js_xor :: "number \<Rightarrow> number \<Rightarrow> number" where
  "js_xor acc cur = Num (sint (ToInt32 acc XOR ToInt32 cur))"

text \<open>
  \<^verbatim>\<open>x.reduce((acc, curr) => acc ^ curr)\<close>: no initial value, so the first element
  starts the accumulator (a one-element array is returned as it is, the callback is
  not called) and an empty array throws.
\<close>

definition reduce_xor :: "number list \<Rightarrow> error + number" where
  "reduce_xor x = (case x of [] \<Rightarrow> Inl TypeError | a # rest \<Rightarrow> Inr (foldl js_xor a rest))"

text \<open>\<^verbatim>\<open>segments.map(...)\<close> with that callback: the first throw ends the map.\<close>

fun map_reduce_xor :: "number list list \<Rightarrow> error + number list" where
  "map_reduce_xor [] = Inr []"
| "map_reduce_xor (x # xs) =
     (case reduce_xor x of
        Inl e \<Rightarrow> Inl e
      | Inr c \<Rightarrow> (case map_reduce_xor xs of Inl e \<Rightarrow> Inl e | Inr cs \<Rightarrow> Inr (c # cs)))"

text \<open>
  \<^verbatim>\<open>bytes.slice(start, end)\<close> and \<^verbatim>\<open>bytes.slice(start)\<close> for non-negative
  indices: both ends are clamped to the length.
\<close>

definition array_slice :: "'a list \<Rightarrow> nat \<Rightarrow> nat \<Rightarrow> 'a list" where
  "array_slice xs start end = drop start (take end xs)"

definition array_slice_from :: "'a list \<Rightarrow> nat \<Rightarrow> 'a list" where
  "array_slice_from xs start = drop start xs"

text \<open>
  \<^verbatim>\<open>length/target>>0\<close>: for \<open>target = 0\<close> the quotient is Infinity or NaN, and
  \<^verbatim>\<open>>>0\<close> turns both into 0.
\<close>

definition seg_size_of :: "nat \<Rightarrow> nat \<Rightarrow> nat" where
  "seg_size_of len target = (if target = 0 then 0 else len div target)"

text \<open>
  The loop \<^verbatim>\<open>for(let i = 0; i<seg_size*target; i+= seg_size)\<close> with its body
  \<^verbatim>\<open>segments.push(bytes.slice(i, i+seg_size))\<close>, from the state \<open>(i, segments)\<close>.
\<close>

function segments_loop ::
  "number list \<Rightarrow> nat \<Rightarrow> nat \<Rightarrow> nat \<Rightarrow> number list list \<Rightarrow> number list list" where
  "segments_loop bytes seg_size target i segments =
     (if i < seg_size * target
      then segments_loop bytes seg_size target (i + seg_size)
             (segments @ [array_slice bytes i (i + seg_size)])
      else segments)"
  by pat_completeness auto
termination
proof (relation "measure (\<lambda>(bytes, seg_size, target, i, segments). seg_size * target - i)")
  show "wf (measure (\<lambda>(bytes :: number list, seg_size, target, i, segments :: number list list).
              seg_size * target - i))"
    by simp
next
  fix bytes :: "number list" and seg_size target i :: nat and segments :: "number list list"
  assume lt: "i < seg_size * target"
  then have "0 < seg_size"
    by (cases seg_size) simp_all
  with lt show "((bytes, seg_size, target, i + seg_size, segments @ [array_slice bytes i (i + seg_size)]),
                 (bytes, seg_size, target, i, segments))
      \<in> measure (\<lambda>(bytes, seg_size, target, i, segments). seg_size * target - i)"
    by simp
qed

declare segments_loop.simps [simp del]

text \<open>
  Lines 108 to 117 of \<^verbatim>\<open>_compress\<close>: the segments after the left-over bytes have
  been added to the last one. With no segment at all, \<^verbatim>\<open>segments[-1]\<close> is
  \<^verbatim>\<open>undefined\<close> and the call of \<^verbatim>\<open>concat\<close> on it throws.
\<close>

definition compress_segments :: "number list \<Rightarrow> nat \<Rightarrow> error + number list list" where
  "compress_segments bytes target =
     (let seg_size = seg_size_of (length bytes) target;
          segments = segments_loop bytes seg_size target 0 []
      in if segments = [] then Inl TypeError
         else Inr (segments[length segments - 1 :=
                     segments ! (length segments - 1) @ array_slice_from bytes (target * seg_size)]))"

text \<open>\<^verbatim>\<open>_compress(bytes, target)\<close>.\<close>

definition compress :: "number list \<Rightarrow> nat \<Rightarrow> error + number list" where
  "compress bytes target =
     (if target > length bytes then Inl (Error ''Fewer input bytes than requested output'')
      else (case compress_segments bytes target of
              Inl e \<Rightarrow> Inl e
            | Inr segments \<Rightarrow> map_reduce_xor segments))"

subsection \<open>Parsing the digest\<close>

text \<open>
  \<^verbatim>\<open>hexdigest.match(/(..?)/g)\<close>. A dot matches any code unit but a line terminator
  (line feed and carriage return, in the range of \<^typ>\<open>char\<close>). Each match starts at
  the first code unit from the end of the previous match that a dot matches, and takes
  the next code unit as well when a dot matches it. \<open>match_pairs\<close> is the list of all
  matches; \<^verbatim>\<open>match\<close> returns \<^verbatim>\<open>null\<close>, here \<open>None\<close>, when there is none.
\<close>

definition is_line_terminator :: "char \<Rightarrow> bool" where
  "is_line_terminator c = (c = CHR 0x0A \<or> c = CHR 0x0D)"

fun match_pairs :: "string \<Rightarrow> string list" where
  "match_pairs [] = []"
| "match_pairs [c] = (if is_line_terminator c then [] else [[c]])"
| "match_pairs (c # d # cs) =
     (if is_line_terminator c then match_pairs (d # cs)
      else if is_line_terminator d then [c] # match_pairs (d # cs)
      else [c, d] # match_pairs cs)"

definition string_match :: "string \<Rightarrow> string list option" where
  "string_match hexdigest =
     (let ms = match_pairs hexdigest in if ms = [] then None else Some ms)"

text \<open>
  \<^verbatim>\<open>parseInt(x, 16)\<close>: leading white space is dropped, then one sign, then one
  prefix \<^verbatim>\<open>0x\<close> or \<^verbatim>\<open>0X\<close>; the digits up to the first code unit that is not a
  hexadecimal digit are the value; with no digit the result is NaN. (The groups of
  \<^verbatim>\<open>humanize\<close> have at most two code units, so the value is exact.)
\<close>

definition is_white_space :: "char \<Rightarrow> bool" where
  "is_white_space c = (of_char c \<in> {9, 10, 11, 12, 13, 32, 160 :: nat})"

definition hex_digit :: "char \<Rightarrow> nat option" where
  "hex_digit c =
     (let n = of_char c :: nat
      in if 48 \<le> n \<and> n \<le> 57 then Some (n - 48)
         else if 97 \<le> n \<and> n \<le> 102 then Some (n - 87)
         else if 65 \<le> n \<and> n \<le> 70 then Some (n - 55)
         else None)"

fun leading_digits :: "string \<Rightarrow> nat list" where
  "leading_digits [] = []"
| "leading_digits (c # cs) =
     (case hex_digit c of None \<Rightarrow> [] | Some d \<Rightarrow> d # leading_digits cs)"

definition parseInt16 :: "string \<Rightarrow> number" where
  "parseInt16 x =
     (let S = dropWhile is_white_space x;
          sign = (if S \<noteq> [] \<and> hd S = CHR ''-'' then - 1 else 1 :: int);
          S1 = (if S \<noteq> [] \<and> (hd S = CHR ''+'' \<or> hd S = CHR ''-'') then tl S else S);
          S2 = (if take 2 S1 = ''0x'' \<or> take 2 S1 = ''0X'' then drop 2 S1 else S1);
          Z = leading_digits S2
      in if Z = [] then NaN else Num (sign * int (foldl (\<lambda>a d. 16 * a + d) 0 Z)))"

subsection \<open>Words\<close>

text \<open>
  \<^verbatim>\<open>this.wordlist[x]\<close>: an array has an element only at an integer index from 0 to
  its length minus one; at any other number (NaN, a negative one) the result is
  \<^verbatim>\<open>undefined\<close>, here \<open>None\<close>.
\<close>

definition wordlist_at :: "string list \<Rightarrow> number \<Rightarrow> string option" where
  "wordlist_at wl x =
     (case x of
        NaN \<Rightarrow> None
      | Num v \<Rightarrow> if 0 \<le> v \<and> v < int (length wl) then Some (wl ! nat v) else None)"

text \<open>
  \<^verbatim>\<open>array.join(separator)\<close>: an element that is \<^verbatim>\<open>undefined\<close> is written as the
  empty string.
\<close>

fun join :: "string option list \<Rightarrow> string \<Rightarrow> string" where
  "join [] separator = []"
| "join [w] separator = (case w of None \<Rightarrow> [] | Some s \<Rightarrow> s)"
| "join (w # v # ws) separator =
     (case w of None \<Rightarrow> [] | Some s \<Rightarrow> s) @ separator @ join (v # ws) separator"

subsection \<open>humanize\<close>

text \<open>
  \<^verbatim>\<open>humanize(hexdigest, words = 4, separator = '-')\<close> with all arguments given.
  \<^verbatim>\<open>pairs.map\<close> on \<^verbatim>\<open>null\<close> throws.
\<close>

definition humanize :: "HumanHasher \<Rightarrow> string \<Rightarrow> nat \<Rightarrow> string \<Rightarrow> error + string" where
  "humanize this hexdigest words separator =
     (case string_match hexdigest of
        None \<Rightarrow> Inl TypeError
      | Some pairs \<Rightarrow>
          (let bytes = map parseInt16 pairs
           in case compress bytes words of
                Inl e \<Rightarrow> Inl e
              | Inr compressed \<Rightarrow>
                  Inr (join (map (\<lambda>x. wordlist_at (wordlist this) x) compressed) separator)))"

text \<open>\<^verbatim>\<open>humanize(hexdigest)\<close>: both optional parameters take their defaults.\<close>

definition humanize_default :: "HumanHasher \<Rightarrow> string \<Rightarrow> error + string" where
  "humanize_default this hexdigest = humanize this hexdigest 4 ''-''"

subsection \<open>Closed forms used in the proofs\<close>

text \<open>
  The segments the loop pushes from the \<open>k\<close>-th on, and the segments after the
  left-over bytes have joined the last one, written without the loop.
\<close>

definition chunks :: "number list \<Rightarrow> nat \<Rightarrow> nat \<Rightarrow> nat \<Rightarrow> number list list" where
  "chunks bytes s k t = map (\<lambda>j. array_slice bytes (j * s) (j * s + s)) [k..<t]"

definition final_segments :: "number list \<Rightarrow> nat \<Rightarrow> number list list" where
  "final_segments bytes T =
     (let s = length bytes div T
      in butlast (chunks bytes s 0 T) @ [last (chunks bytes s 0 T) @ drop (T * s) bytes])"

subsection \<open>Predicates of the claims\<close>

text \<open>
  A byte is a number from 0 to 255. A valid hex digest is a non-empty string of even
  length of hexadecimal digits, in either case.
\<close>

definition is_byte :: "number \<Rightarrow> bool" where
  "is_byte x = (case x of NaN \<Rightarrow> False | Num v \<Rightarrow> 0 \<le> v \<and> v \<le> 255)"

text \<open>
  The value of a number that is not NaN, and the XOR fold of a non-empty segment of
  integers in the words of the specification: the accumulator starts as the first
  byte and takes the bitwise exclusive or with each later byte, left to right.
\<close>

definition num_value :: "number \<Rightarrow> int" where
  "num_value x = (case x of NaN \<Rightarrow> 0 | Num v \<Rightarrow> v)"

definition xor_fold :: "int list \<Rightarrow> int" where
  "xor_fold seg = foldl (XOR) (hd seg) (tl seg)"

definition is_hex_char :: "char \<Rightarrow> bool" where
  "is_hex_char c = (c \<in> set ''0123456789abcdefABCDEF'')"


section \<open>The segments of compress\<close>

lemma segments_loop_stop:
  "\<not> i < s * t \<Longrightarrow> segments_loop bytes s t i acc = acc"
  by (subst segments_loop.simps) simp

lemma segments_loop_step:
  "i < s * t \<Longrightarrow>
   segments_loop bytes s t i acc = segments_loop bytes s t (i + s) (acc @ [array_slice bytes i (i + s)])"
  by (subst segments_loop.simps) simp

lemma segments_loop_chunks:
  "0 < s \<Longrightarrow> k \<le> t \<Longrightarrow> segments_loop bytes s t (k * s) acc = acc @ chunks bytes s k t"
proof (induction "t - k" arbitrary: k acc)
  case 0
  then have "k = t" by simp
  then have "\<not> k * s < s * t" by (simp add: mult.commute)
  then have "segments_loop bytes s t (k * s) acc = acc"
    by (rule segments_loop_stop)
  with \<open>k = t\<close> show ?case by (simp add: chunks_def)
next
  case (Suc d)
  then have lt: "k < t" by simp
  with Suc.prems have cond: "k * s < s * t"
    by (simp add: mult.commute)
  have step: "segments_loop bytes s t (k * s) acc =
      segments_loop bytes s t (Suc k * s) (acc @ [array_slice bytes (k * s) (k * s + s)])"
    using segments_loop_step [OF cond, of bytes acc] by (simp add: add.commute)
  have ih: "segments_loop bytes s t (Suc k * s) (acc @ [array_slice bytes (k * s) (k * s + s)]) =
      (acc @ [array_slice bytes (k * s) (k * s + s)]) @ chunks bytes s (Suc k) t"
    using Suc.hyps(1) [of "Suc k"] Suc.hyps(2) Suc.prems lt by simp
  have "chunks bytes s k t = array_slice bytes (k * s) (k * s + s) # chunks bytes s (Suc k) t"
    using lt by (simp add: chunks_def upt_conv_Cons)
  with step ih show ?case by simp
qed

lemma concat_chunks: "concat (chunks bytes s 0 t) = take (t * s) bytes"
proof (induction t)
  case 0
  show ?case by (simp add: chunks_def)
next
  case (Suc t)
  have "take (t * s) bytes @ drop (t * s) (take (t * s + s) bytes) = take (t * s + s) bytes"
    by (metis append_take_drop_id le_add1 min.absorb1 take_take)
  with Suc show ?case
    by (simp add: chunks_def array_slice_def add.commute)
qed

lemma length_chunks: "length (chunks bytes s k t) = t - k"
  by (simp add: chunks_def)

lemma nth_chunks: "j < t \<Longrightarrow> chunks bytes s 0 t ! j = array_slice bytes (j * s) (j * s + s)"
  by (simp add: chunks_def)

lemma length_chunk:
  "j < t \<Longrightarrow> t * s \<le> length bytes \<Longrightarrow> length (chunks bytes s 0 t ! j) = s"
proof -
  assume j: "j < t" and le: "t * s \<le> length bytes"
  from j have "Suc j \<le> t" by simp
  then have "Suc j * s \<le> t * s" by (rule mult_le_mono1)
  with le have "j * s + s \<le> length bytes" by (simp add: add.commute)
  with j show ?thesis by (simp add: nth_chunks array_slice_def)
qed


lemma update_last_append:
  "xs \<noteq> [] \<Longrightarrow> xs[length xs - 1 := xs ! (length xs - 1) @ ys] = butlast xs @ [last xs @ ys]"
proof (induction xs rule: rev_induct)
  case Nil
  then show ?case by simp
next
  case (snoc x xs)
  show ?case by (simp add: nth_append)
qed

lemma map_reduce_xor_nonempty:
  "\<forall>seg \<in> set segs. seg \<noteq> [] \<Longrightarrow>
   map_reduce_xor segs = Inr (map (\<lambda>seg. foldl js_xor (hd seg) (tl seg)) segs)"
proof (induction segs)
  case Nil
  show ?case by simp
next
  case (Cons seg segs)
  then obtain a rest where "seg = a # rest"
    by (cases seg) auto
  with Cons show ?case by (simp add: reduce_xor_def)
qed

lemma compress_segments_final:
  assumes "1 \<le> T" and "T \<le> length bytes"
  shows "compress_segments bytes T = Inr (final_segments bytes T)"
proof -
  let ?s = "length bytes div T"
  from assms have s: "0 < ?s"
    by (simp add: div_greater_zero_iff)
  have loop: "segments_loop bytes ?s T 0 [] = chunks bytes ?s 0 T"
    using segments_loop_chunks [OF s, of 0 T bytes "[]"] by simp
  have ne: "chunks bytes ?s 0 T \<noteq> []"
    using assms by (simp add: chunks_def)
  from assms have sz: "seg_size_of (length bytes) T = ?s"
    by (simp add: seg_size_of_def)
  let ?c = "chunks bytes ?s 0 T"
  have "compress_segments bytes T =
      Inr (?c[length ?c - 1 := ?c ! (length ?c - 1) @ drop (T * ?s) bytes])"
    using ne by (simp add: compress_segments_def sz loop Let_def array_slice_from_def)
  also have "?c[length ?c - 1 := ?c ! (length ?c - 1) @ drop (T * ?s) bytes] =
      butlast ?c @ [last ?c @ drop (T * ?s) bytes]"
    by (rule update_last_append [OF ne])
  finally show ?thesis
    by (simp add: final_segments_def Let_def)
qed

lemma final_segments_props:
  assumes "1 \<le> T" and "T \<le> length bytes"
  shows "length (final_segments bytes T) = T"
    and "concat (final_segments bytes T) = bytes"
    and "k < T - 1 \<Longrightarrow> length (final_segments bytes T ! k) = length bytes div T"
    and "length (final_segments bytes T ! (T - 1)) = length bytes div T + length bytes mod T"
proof -
  let ?s = "length bytes div T"
  let ?c = "chunks bytes ?s 0 T"
  have fs: "final_segments bytes T = butlast ?c @ [last ?c @ drop (T * ?s) bytes]"
    by (simp add: final_segments_def Let_def)
  have len: "length ?c = T" by (simp add: length_chunks)
  have ne: "?c \<noteq> []" using assms by (simp add: chunks_def)
  have fit: "T * ?s \<le> length bytes" by simp
  show "length (final_segments bytes T) = T"
    using assms by (simp add: fs len)
  have "concat (butlast ?c @ [last ?c]) = take (T * ?s) bytes"
    using ne concat_chunks [of bytes ?s T] by simp
  then have "concat (butlast ?c) @ last ?c = take (T * ?s) bytes"
    by simp
  then have "(concat (butlast ?c) @ last ?c) @ drop (T * ?s) bytes = bytes"
    by (simp only: append_take_drop_id)
  then show "concat (final_segments bytes T) = bytes"
    by (simp add: fs)
  show "length (final_segments bytes T ! k) = ?s" if "k < T - 1"
  proof -
    from that have "final_segments bytes T ! k = ?c ! k"
      by (simp add: fs nth_append len nth_butlast)
    moreover from that have "k < T" by simp
    ultimately show ?thesis using length_chunk [OF _ fit] by simp
  qed
  have "final_segments bytes T ! (T - 1) = last ?c @ drop (T * ?s) bytes"
    by (simp add: fs nth_append len)
  moreover have "last ?c = ?c ! (T - 1)"
    using ne len by (simp add: last_conv_nth)
  moreover have "length (?c ! (T - 1)) = ?s"
    using assms length_chunk [OF _ fit, of "T - 1"] by simp
  moreover have "length bytes - T * ?s = length bytes mod T"
    by (simp add: minus_mult_div_eq_mod)
  ultimately show "length (final_segments bytes T ! (T - 1)) = ?s + length bytes mod T"
    by simp
qed

lemma final_segments_nonempty:
  assumes "1 \<le> T" and "T \<le> length bytes"
  shows "\<forall>seg \<in> set (final_segments bytes T). seg \<noteq> []"
proof
  fix seg assume "seg \<in> set (final_segments bytes T)"
  then obtain k where k: "k < length (final_segments bytes T)" and seg: "seg = final_segments bytes T ! k"
    by (auto simp: in_set_conv_nth)
  from assms have s: "0 < length bytes div T"
    by (simp add: div_greater_zero_iff)
  from k have kT: "k < T" using final_segments_props(1) [OF assms] by simp
  have "0 < length seg"
  proof (cases "k = T - 1")
    case True
    then show ?thesis using final_segments_props(4) [OF assms] s seg by simp
  next
    case False
    with kT have "k < T - 1" by simp
    then show ?thesis using final_segments_props(3) [OF assms] s seg by simp
  qed
  then show "seg \<noteq> []" by simp
qed

lemma compress_final:
  assumes "1 \<le> T" and "T \<le> length bytes"
  shows "compress bytes T =
    Inr (map (\<lambda>seg. foldl js_xor (hd seg) (tl seg)) (final_segments bytes T))"
  using assms
  by (simp add: compress_def compress_segments_final
      map_reduce_xor_nonempty [OF final_segments_nonempty [OF assms]])


lemma final_segments_lengths:
  assumes "1 \<le> T" and "T \<le> length bytes"
  shows "\<forall>k<T - 1. length (final_segments bytes T ! k) = length bytes div T"
  using final_segments_props(3) [OF assms] by blast

subsection \<open>Claims on compress\<close>

lemma singletons_concat:
  "\<forall>seg \<in> set segs. length seg = 1 \<Longrightarrow>
   map (\<lambda>seg. foldl f (hd seg) (tl seg)) segs = concat segs"
proof (induction segs)
  case Nil
  show ?case by simp
next
  case (Cons seg segs)
  then have "length seg = 1" by simp
  then obtain a where "seg = [a]"
    by (cases seg) auto
  with Cons show ?case by simp
qed

lemma final_segments_singletons:
  assumes "bytes \<noteq> []"
  shows "\<forall>seg \<in> set (final_segments bytes (length bytes)). length seg = 1"
proof
  fix seg assume "seg \<in> set (final_segments bytes (length bytes))"
  from assms have h1: "1 \<le> length bytes" by (cases bytes) simp_all
  have h2: "length bytes \<le> length bytes" by simp
  note props = final_segments_props [OF h1 h2]
  from \<open>seg \<in> set _\<close> obtain k where k: "k < length bytes"
    and seg: "seg = final_segments bytes (length bytes) ! k"
    using props(1) by (auto simp: in_set_conv_nth)
  show "length seg = 1"
  proof (cases "k = length bytes - 1")
    case True
    then show ?thesis using props(4) assms seg by simp
  next
    case False
    with k have "k < length bytes - 1" by simp
    then show ?thesis using props(3) assms seg by simp
  qed
qed

text \<open>
  C2. For every byte sequence of length \<open>N\<close>, \<^verbatim>\<open>_compress\<close> with the target equal to
  \<open>N\<close> returns the input unchanged: every segment has exactly one byte, so each fold
  is that byte. The target of \<^verbatim>\<open>_compress\<close> is at least 1 by its contract, so the
  sequence is not empty.
\<close>

theorem compress_identity:
  assumes "bytes \<noteq> []"
  shows "\<exists>segs. compress_segments bytes (length bytes) = Inr segs \<and>
           (\<forall>seg \<in> set segs. length seg = 1) \<and>
           compress bytes (length bytes) = Inr bytes"
proof -
  from assms have h1: "1 \<le> length bytes" by (cases bytes) simp_all
  have h2: "length bytes \<le> length bytes" by simp
  let ?segs = "final_segments bytes (length bytes)"
  have one: "\<forall>seg \<in> set ?segs. length seg = 1"
    by (rule final_segments_singletons [OF assms])
  have "compress bytes (length bytes) = Inr (map (\<lambda>seg. foldl js_xor (hd seg) (tl seg)) ?segs)"
    by (rule compress_final [OF h1 h2])
  also have "map (\<lambda>seg. foldl js_xor (hd seg) (tl seg)) ?segs = concat ?segs"
    by (rule singletons_concat [OF one])
  also have "concat ?segs = bytes"
    by (rule final_segments_props(2) [OF h1 h2])
  finally have "compress bytes (length bytes) = Inr bytes" .
  with one compress_segments_final [OF h1 h2] show ?thesis by blast
qed

theorem compress_identity_witness:
  "[Num 26, Num 43] \<noteq> [] \<and> compress [Num 26, Num 43] 2 = Inr [Num 26, Num 43]"
proof -
  have h: "[Num 26, Num 43] \<noteq> []" by simp
  from compress_identity [OF h]
  have "compress [Num 26, Num 43] (length [Num 26, Num 43]) = Inr [Num 26, Num 43]"
    by blast
  then show ?thesis by (simp add: numeral_2_eq_2)
qed

lemma map_reduce_xor_no_Error: "map_reduce_xor segs \<noteq> Inl (Error msg)"
proof (induction segs)
  case Nil
  show ?case by simp
next
  case (Cons seg segs)
  then show ?case
    by (cases seg; cases "map_reduce_xor segs") (auto simp: reduce_xor_def)
qed

lemma compress_segments_no_Error: "compress_segments bytes target \<noteq> Inl (Error msg)"
  by (simp add: compress_segments_def Let_def)

text \<open>
  C3. \<^verbatim>\<open>_compress\<close> throws the error "Fewer input bytes than requested output"
  (InsufficientInput) exactly when the target exceeds the number of bytes; in
  particular with two bytes and target 3. The check is the first statement, and the
  result in that case does not depend on the bytes. The function is pure, so there is
  no effect to observe besides the result.
\<close>

theorem compress_insufficient_input:
  "(compress bytes target = Inl InsufficientInput) = (length bytes < target) \<and>
   compress [a, b] 3 = Inl InsufficientInput"
proof -
  have "compress bytes target \<noteq> Inl InsufficientInput" if "\<not> length bytes < target"
    using that map_reduce_xor_no_Error compress_segments_no_Error [of bytes target]
    by (cases "compress_segments bytes target") (auto simp: compress_def)
  moreover have "compress bytes target = Inl InsufficientInput" if "length bytes < target"
    using that by (simp add: compress_def)
  moreover have "compress [a, b] 3 = Inl InsufficientInput"
    by (simp add: compress_def)
  ultimately show ?thesis by blast
qed

theorem compress_insufficient_input_witness:
  "compress [Num 1, Num 2] 3 = Inl InsufficientInput \<and>
   compress [Num 1, Num 2] 2 = Inr [Num 1, Num 2]"
proof -
  have "compress [Num 1, Num 2] 2 \<noteq> Inl InsufficientInput"
    using compress_insufficient_input [of "[Num 1, Num 2]" 2] by simp
  moreover have "compress [Num 1, Num 2] 2 = Inr [Num 1, Num 2]" by code_simp
  moreover have "compress [Num 1, Num 2] 3 = Inl InsufficientInput"
    using compress_insufficient_input [of "[Num 1, Num 2]" 3] by simp
  ultimately show ?thesis by simp
qed

section \<open>Checksums of bytes are bytes\<close>

lemma js_xor_Num:
  assumes "0 \<le> a" "a < 256" "0 \<le> b" "b < 256"
  shows "js_xor (Num a) (Num b) = Num (a XOR b)" and "0 \<le> a XOR b" and "a XOR b < 256"
proof -
  show nonneg: "0 \<le> a XOR b" using assms by simp
  have "a XOR b < 2 ^ 8"
    by (rule XOR_upper) (use assms in simp_all)
  then show small: "a XOR b < 256" by simp
  have "word_of_int a XOR word_of_int b = (word_of_int (a XOR b) :: 32 word)"
    by (simp add: of_int_xor_eq)
  moreover have "sint (word_of_int (a XOR b) :: 32 word) = signed_take_bit 31 (a XOR b)"
    by (simp add: sint_sbintrunc')
  moreover have "signed_take_bit 31 (a XOR b) = a XOR b"
  proof (rule signed_take_bit_int_eq_self)
    have "- (2 ^ 31) \<le> (0::int)" by simp
    then show "- (2 ^ 31) \<le> a XOR b" using nonneg by (rule order_trans)
    have "(256::int) \<le> 2 ^ 31" by simp
    with small show "a XOR b < 2 ^ 31" by (rule less_le_trans)
  qed
  ultimately show "js_xor (Num a) (Num b) = Num (a XOR b)"
    by (simp add: js_xor_def ToInt32_def)
qed

lemma is_byte_js_xor: "is_byte x \<Longrightarrow> is_byte y \<Longrightarrow> is_byte (js_xor x y)"
proof -
  assume "is_byte x" and "is_byte y"
  then obtain a b where x: "x = Num a" and a: "0 \<le> a" "a < 256"
    and y: "y = Num b" and b: "0 \<le> b" "b < 256"
    by (cases x; cases y) (auto simp: is_byte_def)
  from js_xor_Num [OF a b] show ?thesis
    by (simp add: x y is_byte_def)
qed

lemma is_byte_foldl:
  "is_byte a \<Longrightarrow> \<forall>x \<in> set rest. is_byte x \<Longrightarrow> is_byte (foldl js_xor a rest)"
  by (induction rest arbitrary: a) (simp_all add: is_byte_js_xor)

lemma is_byte_fold_segment:
  assumes "seg \<noteq> []" and "\<forall>x \<in> set seg. is_byte x"
  shows "is_byte (foldl js_xor (hd seg) (tl seg))"
proof -
  from assms(1) obtain a rest where seg: "seg = a # rest"
    by (cases seg) auto
  with assms(2) show ?thesis
    by (simp add: is_byte_foldl)
qed

lemma compress_bytes:
  assumes bytes: "\<forall>x \<in> set bytes. is_byte x" and "1 \<le> target" and "target \<le> length bytes"
  shows "\<exists>cs. compress bytes target = Inr cs \<and> length cs = target \<and> (\<forall>c \<in> set cs. is_byte c)"
proof -
  let ?segs = "final_segments bytes target"
  let ?cs = "map (\<lambda>seg. foldl js_xor (hd seg) (tl seg)) ?segs"
  have c: "compress bytes target = Inr ?cs"
    by (rule compress_final [OF assms(2,3)])
  have len: "length ?cs = target"
    using final_segments_props(1) [OF assms(2,3)] by simp
  have ne: "\<forall>seg \<in> set ?segs. seg \<noteq> []"
    by (rule final_segments_nonempty [OF assms(2,3)])
  have "set (concat ?segs) = set bytes"
    using final_segments_props(2) [OF assms(2,3)] by simp
  with bytes have "\<forall>seg \<in> set ?segs. \<forall>x \<in> set seg. is_byte x"
    by auto
  with ne have "\<forall>c \<in> set ?cs. is_byte c"
    by (auto intro: is_byte_fold_segment)
  with c len show ?thesis by blast
qed

lemma compress_length:
  assumes "1 \<le> target" and "target \<le> length bytes"
  shows "\<exists>cs. compress bytes target = Inr cs \<and> length cs = target"
  using compress_final [OF assms] final_segments_props(1) [OF assms] by simp

lemma wordlist_at_byte:
  "is_byte c \<Longrightarrow> length wl = 256 \<Longrightarrow> \<exists>v. c = Num v \<and> nat v < length wl \<and> wordlist_at wl c = Some (wl ! nat v)"
  by (cases c) (auto simp: is_byte_def wordlist_at_def)

lemma foldl_js_xor_bytes:
  "0 \<le> v \<Longrightarrow> v < 256 \<Longrightarrow> \<forall>w \<in> set ws. 0 \<le> w \<and> w < 256 \<Longrightarrow>
   foldl js_xor (Num v) (map Num ws) = Num (foldl (XOR) v ws)"
proof (induction ws arbitrary: v)
  case Nil
  show ?case by simp
next
  case (Cons w ws)
  then have w: "0 \<le> w" "w < 256" and ws: "\<forall>w \<in> set ws. 0 \<le> w \<and> w < 256"
    by simp_all
  note x = js_xor_Num [OF Cons.prems(1,2) w]
  from Cons.IH [OF x(2,3) ws] x(1) show ?case by simp
qed

lemma fold_segment_xor:
  assumes "seg \<noteq> []" and "\<forall>x \<in> set seg. is_byte x"
  shows "foldl js_xor (hd seg) (tl seg) = Num (xor_fold (map num_value seg))"
proof -
  from assms(1) obtain a rest where seg: "seg = a # rest"
    by (cases seg) auto
  have val: "x = Num (num_value x) \<and> 0 \<le> num_value x \<and> num_value x < 256"
    if "is_byte x" for x
    using that by (cases x) (simp_all add: is_byte_def num_value_def)
  from assms(2) seg have a: "a = Num (num_value a)" "0 \<le> num_value a" "num_value a < 256"
    using val [of a] by simp_all
  from assms(2) seg have "\<forall>x \<in> set rest. x = Num (num_value x)"
    using val by simp
  then have "map Num (map num_value rest) = rest"
    by (induction rest) simp_all
  moreover from assms(2) seg have "\<forall>w \<in> set (map num_value rest). 0 \<le> w \<and> w < 256"
    using val by simp
  from foldl_js_xor_bytes [OF a(2,3) this]
  have "foldl js_xor (Num (num_value a)) (map Num (map num_value rest)) =
      Num (foldl (XOR) (num_value a) (map num_value rest))" .
  ultimately have "foldl js_xor a rest = Num (foldl (XOR) (num_value a) (map num_value rest))"
    using a(1) by simp
  then show ?thesis by (simp add: seg xor_fold_def)
qed

lemma compress_xor_fold:
  assumes "1 \<le> T" and "T \<le> length bytes" and "\<forall>x \<in> set bytes. is_byte x"
  shows "compress bytes T =
    Inr (map (\<lambda>seg. Num (xor_fold (map num_value seg))) (final_segments bytes T))"
proof -
  let ?segs = "final_segments bytes T"
  have ne: "\<forall>seg \<in> set ?segs. seg \<noteq> []"
    by (rule final_segments_nonempty [OF assms(1,2)])
  have "set (concat ?segs) = set bytes"
    using final_segments_props(2) [OF assms(1,2)] by simp
  with assms(3) have "\<forall>seg \<in> set ?segs. \<forall>x \<in> set seg. is_byte x"
    by auto
  with ne have "map (\<lambda>seg. foldl js_xor (hd seg) (tl seg)) ?segs =
      map (\<lambda>seg. Num (xor_fold (map num_value seg))) ?segs"
    by (simp add: fold_segment_xor)
  with compress_final [OF assms(1,2)] show ?thesis by simp
qed

subsection \<open>The partition and the XOR fold\<close>

text \<open>
  C1. For a byte sequence of length \<open>N\<close> and a target \<open>T\<close> with \<open>1 \<le> T \<le> N\<close>,
  \<^verbatim>\<open>_compress\<close> builds exactly \<open>T\<close> segments; the segments \<open>0\<close> to \<open>T - 2\<close> have
  \<open>N div T\<close> bytes each and the last one has \<open>N div T + N mod T\<close>; their concatenation
  in order is the input (so they are contiguous and do not overlap); and the result
  is the list, in segment order, of the left-to-right XOR folds of the segments, each
  fold starting from the first byte of its segment. The fold is stated twice: with the
  operator \<^verbatim>\<open>^\<close> of the source on any numbers, and, for bytes from 0 to 255, as the
  bitwise exclusive or of the integers themselves.
\<close>

theorem compress_partition:
  assumes "1 \<le> T" and "T \<le> length bytes"
  shows "\<exists>segs. compress_segments bytes T = Inr segs \<and>
           length segs = T \<and>
           (\<forall>k<T - 1. length (segs ! k) = length bytes div T) \<and>
           length (segs ! (T - 1)) = length bytes div T + length bytes mod T \<and>
           concat segs = bytes \<and>
           compress bytes T = Inr (map (\<lambda>seg. foldl js_xor (hd seg) (tl seg)) segs) \<and>
           ((\<forall>x \<in> set bytes. is_byte x) \<longrightarrow>
              compress bytes T = Inr (map (\<lambda>seg. Num (xor_fold (map num_value seg))) segs))"
proof (intro exI conjI impI)
  show "compress_segments bytes T = Inr (final_segments bytes T)"
    by (rule compress_segments_final [OF assms])
  show "length (final_segments bytes T) = T"
    by (rule final_segments_props(1) [OF assms])
  show "\<forall>k<T - 1. length (final_segments bytes T ! k) = length bytes div T"
    by (rule final_segments_lengths [OF assms])
  show "length (final_segments bytes T ! (T - 1)) = length bytes div T + length bytes mod T"
    by (rule final_segments_props(4) [OF assms])
  show "concat (final_segments bytes T) = bytes"
    by (rule final_segments_props(2) [OF assms])
  show "compress bytes T =
      Inr (map (\<lambda>seg. foldl js_xor (hd seg) (tl seg)) (final_segments bytes T))"
    by (rule compress_final [OF assms])
  show "compress bytes T =
      Inr (map (\<lambda>seg. Num (xor_fold (map num_value seg))) (final_segments bytes T))"
    if "\<forall>x \<in> set bytes. is_byte x"
    by (rule compress_xor_fold [OF assms that])
qed

text \<open>
  Seven bytes and target 3: segments of 2, 2 and 3 bytes, and the checksums
  \<open>1 XOR 2 = 3\<close>, \<open>3 XOR 4 = 7\<close> and \<open>5 XOR 6 XOR 7 = 4\<close>.
\<close>

theorem compress_partition_witness:
  "\<exists>segs. compress_segments [Num 1, Num 2, Num 3, Num 4, Num 5, Num 6, Num 7] 3 = Inr segs \<and>
      segs = [[Num 1, Num 2], [Num 3, Num 4], [Num 5, Num 6, Num 7]] \<and>
      length segs = 3 \<and> length (segs ! 0) = 2 \<and> length (segs ! 1) = 2 \<and>
      length (segs ! 2) = 3 \<and>
      concat segs = [Num 1, Num 2, Num 3, Num 4, Num 5, Num 6, Num 7] \<and>
      compress [Num 1, Num 2, Num 3, Num 4, Num 5, Num 6, Num 7] 3 =
        Inr [Num 3, Num 7, Num 4]"
proof -
  let ?bytes = "[Num 1, Num 2, Num 3, Num 4, Num 5, Num 6, Num 7]"
  have h1: "(1::nat) \<le> 3" by simp
  have h2: "3 \<le> length ?bytes" by simp
  have h3: "\<forall>x \<in> set ?bytes. is_byte x" by (simp add: is_byte_def)
  from compress_partition [OF h1 h2] obtain segs where
    a: "compress_segments ?bytes 3 = Inr segs" and b: "length segs = 3"
    and c: "\<forall>k<3 - 1. length (segs ! k) = length ?bytes div 3"
    and d: "length (segs ! (3 - 1)) = length ?bytes div 3 + length ?bytes mod 3"
    and e: "concat segs = ?bytes"
    and f: "(\<forall>x \<in> set ?bytes. is_byte x) \<longrightarrow>
      compress ?bytes 3 = Inr (map (\<lambda>seg. Num (xor_fold (map num_value seg))) segs)"
    by blast
  have "compress_segments ?bytes 3 = Inr [[Num 1, Num 2], [Num 3, Num 4], [Num 5, Num 6, Num 7]]"
    by code_simp
  with a have segs: "segs = [[Num 1, Num 2], [Num 3, Num 4], [Num 5, Num 6, Num 7]]"
    by simp
  from f h3 have "compress ?bytes 3 = Inr (map (\<lambda>seg. Num (xor_fold (map num_value seg))) segs)"
    by blast
  then have g: "compress ?bytes 3 = Inr [Num 3, Num 7, Num 4]"
    by (simp add: segs xor_fold_def num_value_def)
  from c have "length (segs ! 0) = 2" and "length (segs ! 1) = 2" by simp_all
  moreover from d have "length (segs ! 2) = 3" by simp
  ultimately show ?thesis using a b e g segs by blast
qed

section \<open>Parsing hexadecimal digits\<close>

lemma hex_char_digit: "is_hex_char c \<Longrightarrow> \<exists>v<16. hex_digit c = Some v"
  by (auto simp: is_hex_char_def hex_digit_def)

lemma hex_char_plain:
  assumes "is_hex_char c"
  shows "\<not> is_white_space c" and "\<not> is_line_terminator c"
    and "c \<noteq> CHR ''-''" and "c \<noteq> CHR ''+''" and "c \<noteq> CHR ''x''" and "c \<noteq> CHR ''X''"
  using assms by (auto simp: is_hex_char_def is_white_space_def is_line_terminator_def)

lemma parseInt16_one:
  assumes "is_hex_char c"
  shows "\<exists>v. parseInt16 [c] = Num v \<and> 0 \<le> v \<and> v \<le> 15"
proof -
  from hex_char_digit [OF assms] obtain v where v: "v < 16" "hex_digit c = Some v"
    by blast
  have "parseInt16 [c] = Num (int v)"
    using hex_char_plain [OF assms] v by (simp add: parseInt16_def)
  with v show ?thesis by simp
qed

lemma parseInt16_two:
  assumes "is_hex_char c" and "is_hex_char d"
  shows "\<exists>v. parseInt16 [c, d] = Num v \<and> 0 \<le> v \<and> v \<le> 255"
proof -
  from hex_char_digit [OF assms(1)] obtain v where v: "v < 16" "hex_digit c = Some v"
    by blast
  from hex_char_digit [OF assms(2)] obtain w where w: "w < 16" "hex_digit d = Some w"
    by blast
  have "parseInt16 [c, d] = Num (int (16 * v + w))"
    using hex_char_plain [OF assms(1)] hex_char_plain(5,6) [OF assms(2)] v w
    by (simp add: parseInt16_def)
  moreover from v w have "16 * v + w \<le> 255" by simp
  ultimately show ?thesis by simp
qed

lemma match_pairs_hex:
  "\<forall>c \<in> set D. is_hex_char c \<Longrightarrow>
   length (match_pairs D) = (length D + 1) div 2 \<and>
   (\<forall>p \<in> set (match_pairs D). is_byte (parseInt16 p))"
proof (induction D rule: match_pairs.induct)
  case 1
  show ?case by simp
next
  case (2 c)
  then have "is_hex_char c" by simp
  from parseInt16_one [OF this] hex_char_plain(2) [OF this] show ?case
    by (auto simp: is_byte_def)
next
  case (3 c d cs)
  then have c: "is_hex_char c" and d: "is_hex_char d" and cs: "\<forall>c \<in> set cs. is_hex_char c"
    by simp_all
  from parseInt16_two [OF c d] have "is_byte (parseInt16 [c, d])"
    by (auto simp: is_byte_def)
  with 3(3) [OF hex_char_plain(2) [OF c] hex_char_plain(2) [OF d] cs]
    hex_char_plain(2) [OF c] hex_char_plain(2) [OF d]
  show ?case by simp
qed

lemma match_pairs_hex_last:
  "\<forall>c \<in> set D. is_hex_char c \<Longrightarrow> odd (length D) \<Longrightarrow> last (match_pairs D) = [last D]"
proof (induction D rule: match_pairs.induct)
  case 1
  then show ?case by simp
next
  case (2 c)
  then have "is_hex_char c" by simp
  from hex_char_plain(2) [OF this] show ?case by simp
next
  case (3 c d cs)
  then have c: "is_hex_char c" and d: "is_hex_char d" and cs: "\<forall>c \<in> set cs. is_hex_char c"
    by simp_all
  from 3(5) have odd: "odd (length cs)" by simp
  then have ne: "cs \<noteq> []" by auto
  from match_pairs_hex [OF cs] ne have "match_pairs cs \<noteq> []"
    by (cases cs) auto
  with 3(3) [OF hex_char_plain(2) [OF c] hex_char_plain(2) [OF d] cs odd]
    hex_char_plain(2) [OF c] hex_char_plain(2) [OF d] ne
  show ?case by simp
qed

lemma string_match_hex:
  assumes "\<forall>c \<in> set D. is_hex_char c" and "D \<noteq> []"
  shows "string_match D = Some (match_pairs D)"
proof -
  from match_pairs_hex [OF assms(1)] assms(2) have "match_pairs D \<noteq> []"
    by (cases D) auto
  then show ?thesis by (simp add: string_match_def)
qed

section \<open>The constructor and humanize\<close>

lemma constructor_Inr: "constructor wl = Inr h \<Longrightarrow> length wl = 256 \<and> h = \<lparr>wordlist = wl\<rparr>"
  by (auto simp: constructor_def split: if_splits)

lemma humanize_unfold:
  "string_match D = Some pairs \<Longrightarrow> compress (map parseInt16 pairs) n = Inr cs \<Longrightarrow>
   humanize h D n sep = Inr (join (map (wordlist_at (wordlist h)) cs) sep)"
  by (simp add: humanize_def)

lemma humanize_case:
  "string_match D = Some pairs \<Longrightarrow>
   humanize h D n sep =
     (case compress (map parseInt16 pairs) n of
        Inl e \<Rightarrow> Inl e
      | Inr cs \<Rightarrow> Inr (join (map (wordlist_at (wordlist h)) cs) sep))"
  by (simp add: humanize_def)

text \<open>
  C4. The constructor throws "Wordlist must have exactly 256 items"
  (InvalidConfiguration) exactly when the word list does not have 256 entries, and it
  throws nothing else; with 256 entries it returns the instance holding that list,
  whatever the entries are (the witness uses one word 256 times).
\<close>

theorem constructor_validation:
  "(constructor wl = Inl InvalidConfiguration) = (length wl \<noteq> 256) \<and>
   ((\<exists>e. constructor wl = Inl e) = (length wl \<noteq> 256)) \<and>
   (length wl = 256 \<longrightarrow> constructor wl = Inr \<lparr>wordlist = wl\<rparr>)"
  by (simp add: constructor_def)

theorem constructor_validation_witness:
  "constructor (replicate 255 ''ack'') = Inl InvalidConfiguration \<and>
   constructor (replicate 257 ''ack'') = Inl InvalidConfiguration \<and>
   constructor (replicate 256 ''ack'') = Inr \<lparr>wordlist = replicate 256 ''ack''\<rparr>"
  using constructor_validation [of "replicate 255 ''ack''"]
    constructor_validation [of "replicate 257 ''ack''"]
    constructor_validation [of "replicate 256 ''ack''"]
  by simp

text \<open>
  C6. \<^verbatim>\<open>humanize\<close> is deterministic: two instances constructed from the same word
  list give the same result (a phrase or an error) for the same digest, word count
  and separator. The method reads nothing but its arguments and the word list.
\<close>

theorem humanize_deterministic:
  assumes "constructor W = Inr h1" and "constructor W = Inr h2"
  shows "humanize h1 D n s = humanize h2 D n s"
proof -
  from assms have "h1 = h2" by simp
  then show ?thesis by simp
qed

lemma constructor_DEFAULT: "constructor DEFAULT_WORDLIST = Inr \<lparr>wordlist = DEFAULT_WORDLIST\<rparr>"
  by (simp add: constructor_def DEFAULT_WORDLIST_def)

lemma constructor_default_Inr: "constructor_default = Inr \<lparr>wordlist = DEFAULT_WORDLIST\<rparr>"
  by (simp add: constructor_default_def constructor_DEFAULT)

theorem humanize_deterministic_witness:
  "constructor DEFAULT_WORDLIST = Inr \<lparr>wordlist = DEFAULT_WORDLIST\<rparr> \<and>
   humanize \<lparr>wordlist = DEFAULT_WORDLIST\<rparr> ''1A2B3C4D'' 4 ''-'' =
   humanize \<lparr>wordlist = DEFAULT_WORDLIST\<rparr> ''1A2B3C4D'' 4 ''-''"
  using humanize_deterministic [OF constructor_DEFAULT constructor_DEFAULT, of "''1A2B3C4D''" 4 "''-''"]
    constructor_DEFAULT
  by simp

text \<open>
  C9. When every input byte is a number from 0 to 255 and \<open>1 \<le> target \<le> length\<close>,
  \<^verbatim>\<open>_compress\<close> returns checksums that are numbers from 0 to 255 again, so for a
  constructed instance every \<^verbatim>\<open>this.wordlist[x]\<close> of \<^verbatim>\<open>humanize\<close> reads an
  existing entry and never yields \<^verbatim>\<open>undefined\<close>.
\<close>

theorem compress_checksums_in_range:
  assumes "\<forall>x \<in> set bytes. is_byte x" and "1 \<le> target" and "target \<le> length bytes"
  shows "\<exists>cs. compress bytes target = Inr cs \<and>
           (\<forall>c \<in> set cs. is_byte c) \<and>
           (\<forall>wl h. constructor wl = Inr h \<longrightarrow>
              (\<forall>c \<in> set cs. \<exists>v. c = Num v \<and> nat v < length (wordlist h) \<and>
                 wordlist_at (wordlist h) c = Some (wordlist h ! nat v)))"
proof -
  from compress_bytes [OF assms] obtain cs where
    cs: "compress bytes target = Inr cs" and b: "\<forall>c \<in> set cs. is_byte c"
    by blast
  have "\<exists>v. c = Num v \<and> nat v < length (wordlist h) \<and>
          wordlist_at (wordlist h) c = Some (wordlist h ! nat v)"
    if "constructor wl = Inr h" and "c \<in> set cs" for wl h c
  proof -
    from constructor_Inr [OF that(1)] have "length (wordlist h) = 256" by simp
    moreover from b that(2) have "is_byte c" by simp
    ultimately show ?thesis by (rule wordlist_at_byte [rotated])
  qed
  with cs b show ?thesis by blast
qed

theorem compress_checksums_in_range_witness:
  "\<exists>cs. compress [Num 255, Num 1, Num 16] 2 = Inr cs \<and>
           (\<forall>c \<in> set cs. is_byte c) \<and>
           (\<forall>wl h. constructor wl = Inr h \<longrightarrow>
              (\<forall>c \<in> set cs. \<exists>v. c = Num v \<and> nat v < length (wordlist h) \<and>
                 wordlist_at (wordlist h) c = Some (wordlist h ! nat v)))"
proof -
  have h1: "\<forall>x \<in> set [Num 255, Num 1, Num 16]. is_byte x"
    by (simp add: is_byte_def)
  have h2: "(1::nat) \<le> 2" by simp
  have h3: "2 \<le> length [Num 255, Num 1, Num 16]" by simp
  show ?thesis by (rule compress_checksums_in_range [OF h1 h2 h3])
qed






lemma compress_zero: "compress bytes 0 = Inl TypeError"
proof -
  have "\<not> (0::nat) < 0 * 0" by simp
  then have "segments_loop bytes 0 0 0 [] = []"
    by (rule segments_loop_stop)
  then show ?thesis
    by (simp add: compress_def compress_segments_def seg_size_of_def)
qed

lemma compress_fails_iff: "(\<exists>e. compress bytes n = Inl e) = (n = 0 \<or> length bytes < n)"
proof (cases "n = 0 \<or> length bytes < n")
  case True
  then show ?thesis
    by (auto simp: compress_zero) (simp add: compress_def)
next
  case False
  then have "1 \<le> n" and "n \<le> length bytes" by simp_all
  from compress_length [OF this] False show ?thesis by auto
qed

lemma match_pairs_Nil: "(match_pairs D = []) = (\<forall>c \<in> set D. is_line_terminator c)"
  by (induction D rule: match_pairs.induct) auto

lemma humanize_fails_iff:
  "(\<exists>e. humanize h D n sep = Inl e) =
   (match_pairs D = [] \<or> n = 0 \<or> length (match_pairs D) < n)"
proof (cases "match_pairs D = []")
  case True
  then show ?thesis by (simp add: humanize_def string_match_def)
next
  case False
  then have m: "string_match D = Some (match_pairs D)"
    by (simp add: string_match_def)
  have "(\<exists>e. humanize h D n sep = Inl e) =
      (\<exists>e. compress (map parseInt16 (match_pairs D)) n = Inl e)"
    unfolding humanize_case [OF m] by (auto split: sum.splits)
  with False show ?thesis by (simp add: compress_fails_iff)
qed




text \<open>
  C10. For a digest of hexadecimal digits of odd length the regular expression yields
  \<open>(length + 1) div 2\<close> groups, the last one being the last character alone; that
  group is parsed as a byte of its own with a value from 0 to 15; \<^verbatim>\<open>humanize\<close>
  raises an error only for the word count (0, or more than the number of groups),
  never for the odd length; and for a word count from 1 to the number of groups it
  returns the phrase computed from these bytes.
\<close>

theorem humanize_odd_length:
  assumes "\<forall>c \<in> set D. is_hex_char c" and "odd (length D)"
  shows "\<exists>pairs. string_match D = Some pairs \<and>
           length pairs = (length D + 1) div 2 \<and>
           last pairs = [last D] \<and>
           (\<exists>v. parseInt16 (last pairs) = Num v \<and> 0 \<le> v \<and> v \<le> 15) \<and>
           ((\<exists>e. humanize h D n sep = Inl e) = (n = 0 \<or> (length D + 1) div 2 < n)) \<and>
           (1 \<le> n \<and> n \<le> (length D + 1) div 2 \<longrightarrow>
              (\<exists>cs. compress (map parseInt16 pairs) n = Inr cs \<and> length cs = n \<and>
                 humanize h D n sep = Inr (join (map (wordlist_at (wordlist h)) cs) sep)))"
proof -
  from assms(2) have ne: "D \<noteq> []" by auto
  let ?pairs = "match_pairs D"
  have m: "string_match D = Some ?pairs"
    by (rule string_match_hex [OF assms(1) ne])
  from match_pairs_hex [OF assms(1)] have len: "length ?pairs = (length D + 1) div 2"
    by simp
  have l: "last ?pairs = [last D]"
    by (rule match_pairs_hex_last [OF assms])
  from ne assms(1) have "is_hex_char (last D)" by simp
  from parseInt16_one [OF this] l
  have v: "\<exists>v. parseInt16 (last ?pairs) = Num v \<and> 0 \<le> v \<and> v \<le> 15"
    by simp
  from m have "?pairs \<noteq> []"
    by (auto simp: string_match_def split: if_splits)
  with humanize_fails_iff [of h D n sep] len
  have f: "(\<exists>e. humanize h D n sep = Inl e) = (n = 0 \<or> (length D + 1) div 2 < n)"
    by simp
  have r: "\<exists>cs. compress (map parseInt16 ?pairs) n = Inr cs \<and> length cs = n \<and>
      humanize h D n sep = Inr (join (map (wordlist_at (wordlist h)) cs) sep)"
    if "1 \<le> n \<and> n \<le> (length D + 1) div 2"
  proof -
    from that len have "1 \<le> n" and "n \<le> length (map parseInt16 ?pairs)" by simp_all
    from compress_length [OF this] obtain cs where
      cs: "compress (map parseInt16 ?pairs) n = Inr cs" and lcs: "length cs = n"
      by blast
    from humanize_unfold [OF m cs] cs lcs show ?thesis by blast
  qed
  from m len l v f r show ?thesis by blast
qed

theorem humanize_odd_length_witness:
  "\<exists>pairs. string_match ''abc'' = Some pairs \<and> length pairs = 2 \<and> last pairs = ''c'' \<and>
      (\<exists>v. parseInt16 (last pairs) = Num v \<and> 0 \<le> v \<and> v \<le> 15) \<and>
      (\<exists>cs. compress (map parseInt16 pairs) 2 = Inr cs \<and> length cs = 2 \<and>
         humanize \<lparr>wordlist = DEFAULT_WORDLIST\<rparr> ''abc'' 2 ''-'' =
           Inr (join (map (wordlist_at (wordlist \<lparr>wordlist = DEFAULT_WORDLIST\<rparr>)) cs) ''-''))"
proof -
  have h1: "\<forall>c \<in> set ''abc''. is_hex_char c" by (simp add: is_hex_char_def)
  have h2: "odd (length ''abc'')" by simp
  from humanize_odd_length [OF h1 h2, of "\<lparr>wordlist = DEFAULT_WORDLIST\<rparr>" 2 "''-''"]
  obtain pairs where
    a: "string_match ''abc'' = Some pairs"
    and b: "length pairs = (length ''abc'' + 1) div 2"
    and c: "last pairs = [last ''abc'']"
    and d: "\<exists>v. parseInt16 (last pairs) = Num v \<and> 0 \<le> v \<and> v \<le> 15"
    and e: "1 \<le> (2::nat) \<and> 2 \<le> (length ''abc'' + 1) div 2 \<longrightarrow>
      (\<exists>cs. compress (map parseInt16 pairs) 2 = Inr cs \<and> length cs = 2 \<and>
         humanize \<lparr>wordlist = DEFAULT_WORDLIST\<rparr> ''abc'' 2 ''-'' =
           Inr (join (map (wordlist_at (wordlist \<lparr>wordlist = DEFAULT_WORDLIST\<rparr>)) cs) ''-''))"
    by blast
  from b have b': "length pairs = 2" by simp
  from c have c': "last pairs = ''c''" by simp
  from e have e': "\<exists>cs. compress (map parseInt16 pairs) 2 = Inr cs \<and> length cs = 2 \<and>
         humanize \<lparr>wordlist = DEFAULT_WORDLIST\<rparr> ''abc'' 2 ''-'' =
           Inr (join (map (wordlist_at (wordlist \<lparr>wordlist = DEFAULT_WORDLIST\<rparr>)) cs) ''-'')"
    by simp
  from a b' c' d e' show ?thesis by blast
qed

text \<open>
  C7, as amended. The digest \<^verbatim>\<open>1A2B3C4D\<close> is parsed to the bytes 0x1A, 0x2B, 0x3C,
  0x4D; with target 4 they are their own checksums; \<^verbatim>\<open>humanize\<close> returns the entries
  26, 43, 60 and 77 of the word list joined by the separator, which for the default
  word list are bravo, comet, eighteen and fourteen. Ten bytes with target 3 are split
  into segments of 3, 3 and 4 bytes, and the last checksum folds four bytes.
\<close>

theorem humanize_concrete_vectors:
  "string_match ''1A2B3C4D'' = Some [''1A'', ''2B'', ''3C'', ''4D''] \<and>
   map parseInt16 [''1A'', ''2B'', ''3C'', ''4D''] = [Num 0x1A, Num 0x2B, Num 0x3C, Num 0x4D] \<and>
   compress [Num 0x1A, Num 0x2B, Num 0x3C, Num 0x4D] 4 =
     Inr [Num 0x1A, Num 0x2B, Num 0x3C, Num 0x4D] \<and>
   (\<forall>wl h. constructor wl = Inr h \<longrightarrow>
      humanize h ''1A2B3C4D'' 4 sep =
        Inr (wl ! 26 @ sep @ wl ! 43 @ sep @ wl ! 60 @ sep @ wl ! 77)) \<and>
   [DEFAULT_WORDLIST ! 26, DEFAULT_WORDLIST ! 43, DEFAULT_WORDLIST ! 60, DEFAULT_WORDLIST ! 77] =
     [''bravo'', ''comet'', ''eighteen'', ''fourteen''] \<and>
   humanize \<lparr>wordlist = DEFAULT_WORDLIST\<rparr> ''1A2B3C4D'' 4 sep =
     Inr (''bravo'' @ sep @ ''comet'' @ sep @ ''eighteen'' @ sep @ ''fourteen'') \<and>
   compress_segments [b0, b1, b2, b3, b4, b5, b6, b7, b8, b9] 3 =
     Inr [[b0, b1, b2], [b3, b4, b5], [b6, b7, b8, b9]] \<and>
   compress [b0, b1, b2, b3, b4, b5, b6, b7, b8, b9] 3 =
     Inr [js_xor (js_xor b0 b1) b2, js_xor (js_xor b3 b4) b5,
          js_xor (js_xor (js_xor b6 b7) b8) b9]"
proof -
  have m: "string_match ''1A2B3C4D'' = Some [''1A'', ''2B'', ''3C'', ''4D'']"
    by (simp add: string_match_def is_line_terminator_def)
  have p: "map parseInt16 [''1A'', ''2B'', ''3C'', ''4D''] = [Num 26, Num 43, Num 60, Num 77]"
    by (simp add: parseInt16_def is_white_space_def hex_digit_def)
  have c: "compress [Num 26, Num 43, Num 60, Num 77] 4 = Inr [Num 26, Num 43, Num 60, Num 77]"
    by code_simp
  have h: "humanize h ''1A2B3C4D'' 4 sep =
      Inr (wl ! 26 @ sep @ wl ! 43 @ sep @ wl ! 60 @ sep @ wl ! 77)"
    if "constructor wl = Inr h" for wl h
  proof -
    from constructor_Inr [OF that] have wl: "length wl = 256" "wordlist h = wl" by simp_all
    from p c have "compress (map parseInt16 [''1A'', ''2B'', ''3C'', ''4D'']) 4 =
        Inr [Num 26, Num 43, Num 60, Num 77]"
      by simp
    from humanize_unfold [OF m this, of h sep] wl show ?thesis
      by (simp add: wordlist_at_def)
  qed
  have w: "[DEFAULT_WORDLIST ! 26, DEFAULT_WORDLIST ! 43, DEFAULT_WORDLIST ! 60,
      DEFAULT_WORDLIST ! 77] = [''bravo'', ''comet'', ''eighteen'', ''fourteen'']"
    by code_simp
  have dflt: "humanize \<lparr>wordlist = DEFAULT_WORDLIST\<rparr> ''1A2B3C4D'' 4 sep =
      Inr (''bravo'' @ sep @ ''comet'' @ sep @ ''eighteen'' @ sep @ ''fourteen'')"
    using h [OF constructor_DEFAULT] w by simp
  have loop: "segments_loop [b0, b1, b2, b3, b4, b5, b6, b7, b8, b9] 3 3 0 [] =
      [[b0, b1, b2], [b3, b4, b5], [b6, b7, b8]]"
    by (simp add: segments_loop.simps array_slice_def)
  have s: "compress_segments [b0, b1, b2, b3, b4, b5, b6, b7, b8, b9] 3 =
      Inr [[b0, b1, b2], [b3, b4, b5], [b6, b7, b8, b9]]"
    by (simp add: compress_segments_def seg_size_of_def loop array_slice_from_def)
  have "compress [b0, b1, b2, b3, b4, b5, b6, b7, b8, b9] 3 =
      Inr [js_xor (js_xor b0 b1) b2, js_xor (js_xor b3 b4) b5,
           js_xor (js_xor (js_xor b6 b7) b8) b9]"
    by (simp add: compress_def s reduce_xor_def)
  with m p c h w dflt s show ?thesis by simp
qed

theorem humanize_concrete_vectors_witness:
  "constructor DEFAULT_WORDLIST = Inr \<lparr>wordlist = DEFAULT_WORDLIST\<rparr> \<and>
   humanize \<lparr>wordlist = DEFAULT_WORDLIST\<rparr> ''1A2B3C4D'' 4 ''-'' =
     Inr ''bravo-comet-eighteen-fourteen''"
proof -
  from humanize_concrete_vectors [of "''-''"] constructor_DEFAULT
  have "humanize \<lparr>wordlist = DEFAULT_WORDLIST\<rparr> ''1A2B3C4D'' 4 ''-'' =
      Inr (DEFAULT_WORDLIST ! 26 @ ''-'' @ DEFAULT_WORDLIST ! 43 @ ''-'' @
           DEFAULT_WORDLIST ! 60 @ ''-'' @ DEFAULT_WORDLIST ! 77)"
    and "[DEFAULT_WORDLIST ! 26, DEFAULT_WORDLIST ! 43, DEFAULT_WORDLIST ! 60,
      DEFAULT_WORDLIST ! 77] = [''bravo'', ''comet'', ''eighteen'', ''fourteen'']"
    by blast+
  with constructor_DEFAULT show ?thesis by simp
qed

text \<open>
  C7 as stated names foxtrot as entry 77 of the default word list; foxtrot is entry
  78, and entry 77 is fourteen.
\<close>

theorem humanize_concrete_vectors_counterexample:
  "DEFAULT_WORDLIST ! 77 \<noteq> ''foxtrot'' \<and>
   humanize \<lparr>wordlist = DEFAULT_WORDLIST\<rparr> ''1A2B3C4D'' 4 ''-'' \<noteq>
     Inr ''bravo-comet-eighteen-foxtrot''"
  by code_simp

end
